theory Spec2Isabelle
  imports Main "HOL-Library.Multiset"
begin

section \<open>Two-sum: four implementations\<close>

text \<open>
  The repository holds four implementations of \<open>two_sum(nums, target)\<close>:
  \<^item> \<open>david.py\<close> and \<open>joseantonio.py\<close>: one pass with a dictionary from value to index;
  \<^item> \<open>jp.py\<close>: the double loop over all pairs of indices;
  \<^item> \<open>patrick.py\<close>: sort the enumerated values, then scan with two pointers.

  Python integers are unbounded, so values and the target are \<open>int\<close>. Indices produced
  by \<open>enumerate\<close> and \<open>range\<close> are \<open>nat\<close>; the two pointers of \<open>patrick.py\<close> are
  \<open>int\<close>, since \<open>len(nums) - 1\<close> is \<open>-1\<close> on the empty list. A subscript that Python
  would reject is an error value, so each function returns \<open>py_error + nat list\<close>.
\<close>

subsection \<open>Python primitives\<close>

datatype py_error = IndexError | KeyError

text \<open>\<open>xs[i]\<close> on a list: a negative index counts from the end, out of range raises.\<close>

definition getitem :: "'a list \<Rightarrow> int \<Rightarrow> py_error + 'a" where
  "getitem xs i =
     (if 0 \<le> i \<and> i < int (length xs) then Inr (xs ! nat i)
      else if i < 0 \<and> - int (length xs) \<le> i then Inr (xs ! nat (int (length xs) + i))
      else Inl IndexError)"

text \<open>\<open>k in d\<close> and \<open>d[k]\<close> on a dictionary: a missing key raises.\<close>

definition dict_contains :: "('k \<rightharpoonup> 'v) \<Rightarrow> 'k \<Rightarrow> bool" where
  "dict_contains d k = (case d k of None \<Rightarrow> False | Some _ \<Rightarrow> True)"

definition dict_getitem :: "('k \<rightharpoonup> 'v) \<Rightarrow> 'k \<Rightarrow> py_error + 'v" where
  "dict_getitem d k = (case d k of None \<Rightarrow> Inl KeyError | Some v \<Rightarrow> Inr v)"

subsection \<open>david.py\<close>

text \<open>
  The body of \<open>for i, num in enumerate(nums)\<close>, with the dictionary \<open>num_map\<close> passed
  along; falling out of the loop reaches \<open>return []\<close>.
\<close>

fun david_loop :: "(int \<rightharpoonup> nat) \<Rightarrow> (nat \<times> int) list \<Rightarrow> int \<Rightarrow> py_error + nat list" where
  "david_loop num_map [] target = Inr []"
| "david_loop num_map ((i, num) # rest) target =
     (let complement = target - num in
      if dict_contains num_map complement then
        (case dict_getitem num_map complement of
           Inl e \<Rightarrow> Inl e
         | Inr k \<Rightarrow> Inr [k, i])
      else david_loop (num_map(num \<mapsto> i)) rest target)"

definition david_two_sum :: "int list \<Rightarrow> int \<Rightarrow> py_error + nat list" where
  "david_two_sum nums target = david_loop Map.empty (enumerate 0 nums) target"

subsection \<open>joseantonio.py\<close>

fun joseantonio_loop :: "(int \<rightharpoonup> nat) \<Rightarrow> (nat \<times> int) list \<Rightarrow> int \<Rightarrow> py_error + nat list" where
  "joseantonio_loop seen [] target = Inr []"
| "joseantonio_loop seen ((index, val) # rest) target =
     (let diff = target - val in
      if dict_contains seen diff then
        (case dict_getitem seen diff of
           Inl e \<Rightarrow> Inl e
         | Inr k \<Rightarrow> Inr [k, index])
      else joseantonio_loop (seen(val \<mapsto> index)) rest target)"

definition joseantonio_two_sum :: "int list \<Rightarrow> int \<Rightarrow> py_error + nat list" where
  "joseantonio_two_sum nums target = joseantonio_loop Map.empty (enumerate 0 nums) target"

subsection \<open>jp.py\<close>

text \<open>
  The inner loop runs over the values of \<open>range(i + 1, len(nums))\<close>, the outer one over
  those of \<open>range(len(nums))\<close>. A loop yields \<open>Some r\<close> when its body executed
  \<open>return r\<close> and \<open>None\<close> when it ran to its end.
\<close>

fun jp_inner :: "int list \<Rightarrow> int \<Rightarrow> nat \<Rightarrow> nat list \<Rightarrow> py_error + nat list option" where
  "jp_inner nums target i [] = Inr None"
| "jp_inner nums target i (j # js) =
     (case getitem nums (int i) of
        Inl e \<Rightarrow> Inl e
      | Inr a \<Rightarrow>
          (case getitem nums (int j) of
             Inl e \<Rightarrow> Inl e
           | Inr b \<Rightarrow>
               if a + b = target then Inr (Some [i, j])
               else jp_inner nums target i js))"

fun jp_outer :: "int list \<Rightarrow> int \<Rightarrow> nat list \<Rightarrow> py_error + nat list option" where
  "jp_outer nums target [] = Inr None"
| "jp_outer nums target (i # is) =
     (case jp_inner nums target i [i + 1 ..< length nums] of
        Inl e \<Rightarrow> Inl e
      | Inr (Some r) \<Rightarrow> Inr (Some r)
      | Inr None \<Rightarrow> jp_outer nums target is)"

definition jp_two_sum :: "int list \<Rightarrow> int \<Rightarrow> py_error + nat list" where
  "jp_two_sum nums target =
     (case jp_outer nums target [0 ..< length nums] of
        Inl e \<Rightarrow> Inl e
      | Inr (Some r) \<Rightarrow> Inr r
      | Inr None \<Rightarrow> Inr [])"

subsection \<open>patrick.py\<close>

text \<open>
  \<open>sorted(enumerate(nums), key=lambda x: x[1])\<close> is a stable sort on the value, which
  is what \<open>sort_key snd\<close> computes. The \<open>while\<close> loop moves one of the two pointers
  in every round that does not return.
\<close>

function patrick_loop :: "(nat \<times> int) list \<Rightarrow> int \<Rightarrow> int \<Rightarrow> int \<Rightarrow> py_error + nat list" where
  "patrick_loop sorted_nums target left right =
     (if left < right then
        (case getitem sorted_nums left of
           Inl e \<Rightarrow> Inl e
         | Inr l \<Rightarrow>
             (case getitem sorted_nums right of
                Inl e \<Rightarrow> Inl e
              | Inr r \<Rightarrow>
                  (let current_sum = snd l + snd r in
                   if current_sum = target then Inr (sort [fst l, fst r])
                   else if current_sum < target then
                     patrick_loop sorted_nums target (left + 1) right
                   else patrick_loop sorted_nums target left (right - 1))))
      else Inr [])"
  by pat_completeness auto
termination
  by (relation "measure (\<lambda>(sorted_nums, target, left, right). nat (right - left))") auto

definition patrick_two_sum :: "int list \<Rightarrow> int \<Rightarrow> py_error + nat list" where
  "patrick_two_sum nums target =
     (let sorted_nums = sort_key snd (enumerate 0 nums)
      in patrick_loop sorted_nums target 0 (int (length nums) - 1))"

subsection \<open>Valid pairs\<close>

text \<open>
  A valid pair is a pair of distinct indices into the sequence whose values sum to the
  target.
\<close>

definition valid_pair :: "int list \<Rightarrow> int \<Rightarrow> nat \<Rightarrow> nat \<Rightarrow> bool" where
  "valid_pair nums target i j \<longleftrightarrow>
     i \<noteq> j \<and> i < length nums \<and> j < length nums \<and> nums ! i + nums ! j = target"

section \<open>The dictionary variants\<close>

text \<open>
  The loop is analysed at position \<open>k\<close> of the sequence. The dictionary then maps
  each value among the first \<open>k\<close> elements to the last index holding it (a later
  assignment overwrites an earlier one), and no two of the first \<open>k\<close> elements sum
  to the target, since the loop has not returned.
\<close>

lemma dict_contains_iff: "dict_contains d k \<longleftrightarrow> d k \<noteq> None"
  by (simp add: dict_contains_def split: option.splits)

lemma joseantonio_loop_eq_david_loop:
  "joseantonio_loop m ps t = david_loop m ps t"
proof (induction ps arbitrary: m)
  case Nil
  show ?case by simp
next
  case (Cons p ps)
  obtain i v where p: "p = (i, v)" by (cases p)
  show ?case unfolding p by (simp only: joseantonio_loop.simps david_loop.simps Cons.IH)
qed

lemma david_loop_post:
  assumes "k \<le> length nums"
    and "\<forall>v i. m v = Some i \<longrightarrow> i < k \<and> nums ! i = v \<and> (\<forall>a. i < a \<and> a < k \<longrightarrow> nums ! a \<noteq> v)"
    and "\<forall>i<k. m (nums ! i) \<noteq> None"
    and "\<forall>a b. a < b \<and> b < k \<longrightarrow> nums ! a + nums ! b \<noteq> t"
  shows "(david_loop m (enumerate k (drop k nums)) t = Inr [] \<and>
           (\<forall>a b. a < b \<and> b < length nums \<longrightarrow> nums ! a + nums ! b \<noteq> t)) \<or>
         (\<exists>i j. david_loop m (enumerate k (drop k nums)) t = Inr [i, j] \<and>
            i < j \<and> j < length nums \<and> nums ! i + nums ! j = t \<and>
            (\<forall>a b. a < b \<and> b < j \<longrightarrow> nums ! a + nums ! b \<noteq> t) \<and>
            (\<forall>a. i < a \<and> a < j \<longrightarrow> nums ! a + nums ! j \<noteq> t))"
  using assms
proof (induction "length nums - k" arbitrary: k m)
  case 0
  then have "k = length nums" by simp
  with 0 show ?case by simp
next
  case (Suc n)
  then have klt: "k < length nums" by simp
  have unfold: "enumerate k (drop k nums) = (k, nums ! k) # enumerate (Suc k) (drop (Suc k) nums)"
    using klt by (simp add: Cons_nth_drop_Suc [symmetric])
  show ?case
  proof (cases "m (t - nums ! k)")
    case (Some i)
    from Suc.prems(2) Some have i: "i < k" "nums ! i = t - nums ! k"
      "\<forall>a. i < a \<and> a < k \<longrightarrow> nums ! a \<noteq> t - nums ! k" by blast+
    have res: "david_loop m (enumerate k (drop k nums)) t = Inr [i, k]"
      using Some by (simp add: unfold dict_contains_iff dict_getitem_def)
    have "\<forall>a. i < a \<and> a < k \<longrightarrow> nums ! a + nums ! k \<noteq> t"
      using i(3) by auto
    with res i(1,2) klt Suc.prems(4) show ?thesis by auto
  next
    case None
    let ?m = "m(nums ! k \<mapsto> k)"
    have res: "david_loop m (enumerate k (drop k nums)) t
      = david_loop ?m (enumerate (Suc k) (drop (Suc k) nums)) t"
      using None by (simp add: unfold dict_contains_iff)
    have n: "n = length nums - Suc k" using Suc.hyps(2) by simp
    have p1: "Suc k \<le> length nums" using klt by simp
    have p2: "\<forall>v i. ?m v = Some i \<longrightarrow> i < Suc k \<and> nums ! i = v \<and>
                (\<forall>a. i < a \<and> a < Suc k \<longrightarrow> nums ! a \<noteq> v)"
    proof (intro allI impI)
      fix v i assume h: "?m v = Some i"
      show "i < Suc k \<and> nums ! i = v \<and> (\<forall>a. i < a \<and> a < Suc k \<longrightarrow> nums ! a \<noteq> v)"
      proof (cases "v = nums ! k")
        case True
        with h have "i = k" by simp
        with True show ?thesis by simp
      next
        case False
        with h have "m v = Some i" by simp
        with Suc.prems(2) have "i < k" "nums ! i = v" "\<forall>a. i < a \<and> a < k \<longrightarrow> nums ! a \<noteq> v"
          by blast+
        with False show ?thesis using less_Suc_eq by auto
      qed
    qed
    have p3: "\<forall>i<Suc k. ?m (nums ! i) \<noteq> None"
      using Suc.prems(3) by (auto simp: less_Suc_eq)
    have p4: "\<forall>a b. a < b \<and> b < Suc k \<longrightarrow> nums ! a + nums ! b \<noteq> t"
    proof (intro allI impI)
      fix a b assume ab: "a < b \<and> b < Suc k"
      show "nums ! a + nums ! b \<noteq> t"
      proof (cases "b = k")
        case True
        with ab have "a < k" by simp
        with Suc.prems(3) have "m (nums ! a) \<noteq> None" by blast
        with None have "nums ! a \<noteq> t - nums ! k" by metis
        with True show ?thesis by auto
      next
        case False
        with ab have "a < b \<and> b < k" by simp
        with Suc.prems(4) show ?thesis by blast
      qed
    qed
    from Suc.hyps(1) [OF n p1 p2 p3 p4] show ?thesis unfolding res .
  qed
qed

lemma david_two_sum_post:
  "(david_two_sum nums t = Inr [] \<and>
           (\<forall>a b. a < b \<and> b < length nums \<longrightarrow> nums ! a + nums ! b \<noteq> t)) \<or>
         (\<exists>i j. david_two_sum nums t = Inr [i, j] \<and>
            i < j \<and> j < length nums \<and> nums ! i + nums ! j = t \<and>
            (\<forall>a b. a < b \<and> b < j \<longrightarrow> nums ! a + nums ! b \<noteq> t) \<and>
            (\<forall>a. i < a \<and> a < j \<longrightarrow> nums ! a + nums ! j \<noteq> t))"
  using david_loop_post [of 0 nums Map.empty t] by (simp add: david_two_sum_def)

lemma joseantonio_eq_david: "joseantonio_two_sum nums t = david_two_sum nums t"
  by (simp add: joseantonio_two_sum_def david_two_sum_def joseantonio_loop_eq_david_loop)

section \<open>The double loop\<close>

text \<open>
  The inner loop is analysed from position \<open>j0\<close> of its range and the outer loop from
  position \<open>i0\<close>: each either runs to its end, and then no pair in the part it covered
  sums to the target, or returns the first such pair of that part.
\<close>

lemma getitem_nat: "i < length xs \<Longrightarrow> getitem xs (int i) = Inr (xs ! i)"
  by (simp add: getitem_def)

lemma jp_inner_post:
  assumes "i < j0" and "j0 \<le> length nums"
  shows "(jp_inner nums t i [j0 ..< length nums] = Inr None \<and>
           (\<forall>b. j0 \<le> b \<and> b < length nums \<longrightarrow> nums ! i + nums ! b \<noteq> t)) \<or>
         (\<exists>j. jp_inner nums t i [j0 ..< length nums] = Inr (Some [i, j]) \<and>
            j0 \<le> j \<and> j < length nums \<and> nums ! i + nums ! j = t \<and>
            (\<forall>b. j0 \<le> b \<and> b < j \<longrightarrow> nums ! i + nums ! b \<noteq> t))"
  using assms
proof (induction "length nums - j0" arbitrary: j0)
  case 0
  then show ?case by simp
next
  case (Suc n)
  then have lt: "j0 < length nums" by simp
  with Suc.prems have ilt: "i < length nums" by simp
  have unfold: "[j0 ..< length nums] = j0 # [Suc j0 ..< length nums]"
    using lt by (simp add: upt_conv_Cons)
  show ?case
  proof (cases "nums ! i + nums ! j0 = t")
    case True
    then have "jp_inner nums t i [j0 ..< length nums] = Inr (Some [i, j0])"
      by (simp add: unfold getitem_nat lt ilt)
    with True lt show ?thesis by auto
  next
    case False
    then have res: "jp_inner nums t i [j0 ..< length nums]
        = jp_inner nums t i [Suc j0 ..< length nums]"
      by (simp add: unfold getitem_nat lt ilt)
    have n: "n = length nums - Suc j0" using Suc.hyps(2) by simp
    have p1: "i < Suc j0" using Suc.prems(1) by simp
    have p2: "Suc j0 \<le> length nums" using lt by simp
    from Suc.hyps(1) [OF n p1 p2] show ?thesis
    proof
      assume h: "jp_inner nums t i [Suc j0 ..< length nums] = Inr None \<and>
        (\<forall>b. Suc j0 \<le> b \<and> b < length nums \<longrightarrow> nums ! i + nums ! b \<noteq> t)"
      have "\<forall>b. j0 \<le> b \<and> b < length nums \<longrightarrow> nums ! i + nums ! b \<noteq> t"
      proof (intro allI impI)
        fix b assume b: "j0 \<le> b \<and> b < length nums"
        show "nums ! i + nums ! b \<noteq> t"
        proof (cases "b = j0")
          case True with False show ?thesis by simp
        next
          case False with b h show ?thesis by simp
        qed
      qed
      with h res show ?thesis by simp
    next
      assume "\<exists>j. jp_inner nums t i [Suc j0 ..< length nums] = Inr (Some [i, j]) \<and>
        Suc j0 \<le> j \<and> j < length nums \<and> nums ! i + nums ! j = t \<and>
        (\<forall>b. Suc j0 \<le> b \<and> b < j \<longrightarrow> nums ! i + nums ! b \<noteq> t)"
      then obtain j where h: "jp_inner nums t i [Suc j0 ..< length nums] = Inr (Some [i, j])"
        "Suc j0 \<le> j" "j < length nums" "nums ! i + nums ! j = t"
        "\<forall>b. Suc j0 \<le> b \<and> b < j \<longrightarrow> nums ! i + nums ! b \<noteq> t" by blast
      have "\<forall>b. j0 \<le> b \<and> b < j \<longrightarrow> nums ! i + nums ! b \<noteq> t"
      proof (intro allI impI)
        fix b assume b: "j0 \<le> b \<and> b < j"
        show "nums ! i + nums ! b \<noteq> t"
        proof (cases "b = j0")
          case True with False show ?thesis by simp
        next
          case False with b h(5) show ?thesis by simp
        qed
      qed
      with h res show ?thesis by auto
    qed
  qed
qed

lemma jp_outer_post:
  assumes "i0 \<le> length nums"
  shows "(jp_outer nums t [i0 ..< length nums] = Inr None \<and>
           (\<forall>a b. i0 \<le> a \<and> a < b \<and> b < length nums \<longrightarrow> nums ! a + nums ! b \<noteq> t)) \<or>
         (\<exists>i j. jp_outer nums t [i0 ..< length nums] = Inr (Some [i, j]) \<and>
            i0 \<le> i \<and> i < j \<and> j < length nums \<and> nums ! i + nums ! j = t \<and>
            (\<forall>a b. i0 \<le> a \<and> a < i \<and> a < b \<and> b < length nums \<longrightarrow> nums ! a + nums ! b \<noteq> t) \<and>
            (\<forall>b. i < b \<and> b < j \<longrightarrow> nums ! i + nums ! b \<noteq> t))"
  using assms
proof (induction "length nums - i0" arbitrary: i0)
  case 0
  then show ?case by simp
next
  case (Suc n)
  then have lt: "i0 < length nums" by simp
  have unfold: "[i0 ..< length nums] = i0 # [Suc i0 ..< length nums]"
    using lt by (simp add: upt_conv_Cons)
  have inner: "(jp_inner nums t i0 [Suc i0 ..< length nums] = Inr None \<and>
           (\<forall>b. Suc i0 \<le> b \<and> b < length nums \<longrightarrow> nums ! i0 + nums ! b \<noteq> t)) \<or>
         (\<exists>j. jp_inner nums t i0 [Suc i0 ..< length nums] = Inr (Some [i0, j]) \<and>
            Suc i0 \<le> j \<and> j < length nums \<and> nums ! i0 + nums ! j = t \<and>
            (\<forall>b. Suc i0 \<le> b \<and> b < j \<longrightarrow> nums ! i0 + nums ! b \<noteq> t))"
    using jp_inner_post [of i0 "Suc i0" nums t] lt by simp
  from inner show ?case
  proof
    assume h: "jp_inner nums t i0 [Suc i0 ..< length nums] = Inr None \<and>
           (\<forall>b. Suc i0 \<le> b \<and> b < length nums \<longrightarrow> nums ! i0 + nums ! b \<noteq> t)"
    then have res: "jp_outer nums t [i0 ..< length nums] = jp_outer nums t [Suc i0 ..< length nums]"
      by (simp add: unfold)
    have row: "\<forall>b. i0 < b \<and> b < length nums \<longrightarrow> nums ! i0 + nums ! b \<noteq> t"
      using h by simp
    have n: "n = length nums - Suc i0" using Suc.hyps(2) by simp
    have p: "Suc i0 \<le> length nums" using lt by simp
    from Suc.hyps(1) [OF n p] show ?thesis
    proof
      assume g: "jp_outer nums t [Suc i0 ..< length nums] = Inr None \<and>
        (\<forall>a b. Suc i0 \<le> a \<and> a < b \<and> b < length nums \<longrightarrow> nums ! a + nums ! b \<noteq> t)"
      have "\<forall>a b. i0 \<le> a \<and> a < b \<and> b < length nums \<longrightarrow> nums ! a + nums ! b \<noteq> t"
      proof (intro allI impI)
        fix a b assume ab: "i0 \<le> a \<and> a < b \<and> b < length nums"
        show "nums ! a + nums ! b \<noteq> t"
        proof (cases "a = i0")
          case True with ab row show ?thesis by simp
        next
          case False with ab g show ?thesis by simp
        qed
      qed
      with g res show ?thesis by simp
    next
      assume "\<exists>i j. jp_outer nums t [Suc i0 ..< length nums] = Inr (Some [i, j]) \<and>
            Suc i0 \<le> i \<and> i < j \<and> j < length nums \<and> nums ! i + nums ! j = t \<and>
            (\<forall>a b. Suc i0 \<le> a \<and> a < i \<and> a < b \<and> b < length nums \<longrightarrow> nums ! a + nums ! b \<noteq> t) \<and>
            (\<forall>b. i < b \<and> b < j \<longrightarrow> nums ! i + nums ! b \<noteq> t)"
      then obtain i j where g: "jp_outer nums t [Suc i0 ..< length nums] = Inr (Some [i, j])"
        "Suc i0 \<le> i" "i < j" "j < length nums" "nums ! i + nums ! j = t"
        "\<forall>a b. Suc i0 \<le> a \<and> a < i \<and> a < b \<and> b < length nums \<longrightarrow> nums ! a + nums ! b \<noteq> t"
        "\<forall>b. i < b \<and> b < j \<longrightarrow> nums ! i + nums ! b \<noteq> t" by blast
      have "\<forall>a b. i0 \<le> a \<and> a < i \<and> a < b \<and> b < length nums \<longrightarrow> nums ! a + nums ! b \<noteq> t"
      proof (intro allI impI)
        fix a b assume ab: "i0 \<le> a \<and> a < i \<and> a < b \<and> b < length nums"
        show "nums ! a + nums ! b \<noteq> t"
        proof (cases "a = i0")
          case True with ab row show ?thesis by simp
        next
          case False with ab g(6) show ?thesis by simp
        qed
      qed
      with g res show ?thesis by auto
    qed
  next
    assume "\<exists>j. jp_inner nums t i0 [Suc i0 ..< length nums] = Inr (Some [i0, j]) \<and>
            Suc i0 \<le> j \<and> j < length nums \<and> nums ! i0 + nums ! j = t \<and>
            (\<forall>b. Suc i0 \<le> b \<and> b < j \<longrightarrow> nums ! i0 + nums ! b \<noteq> t)"
    then obtain j where h: "jp_inner nums t i0 [Suc i0 ..< length nums] = Inr (Some [i0, j])"
      "Suc i0 \<le> j" "j < length nums" "nums ! i0 + nums ! j = t"
      "\<forall>b. Suc i0 \<le> b \<and> b < j \<longrightarrow> nums ! i0 + nums ! b \<noteq> t" by blast
    have res: "jp_outer nums t [i0 ..< length nums] = Inr (Some [i0, j])"
      using h(1) by (simp add: unfold)
    have "\<forall>b. i0 < b \<and> b < j \<longrightarrow> nums ! i0 + nums ! b \<noteq> t" using h(5) by simp
    with res h show ?thesis by auto
  qed
qed

lemma jp_two_sum_post:
  "(jp_two_sum nums t = Inr [] \<and>
      (\<forall>a b. a < b \<and> b < length nums \<longrightarrow> nums ! a + nums ! b \<noteq> t)) \<or>
   (\<exists>i j. jp_two_sum nums t = Inr [i, j] \<and>
      i < j \<and> j < length nums \<and> nums ! i + nums ! j = t \<and>
      (\<forall>a b. a < i \<and> a < b \<and> b < length nums \<longrightarrow> nums ! a + nums ! b \<noteq> t) \<and>
      (\<forall>b. i < b \<and> b < j \<longrightarrow> nums ! i + nums ! b \<noteq> t))"
  using jp_outer_post [of 0 nums t] by (auto simp: jp_two_sum_def)

section \<open>Sorting and two pointers\<close>

text \<open>
  The loop keeps every pair of positions of the sorted list whose values sum to the
  target between the two pointers: when the sum at the pointers is too small, the left
  position pairs with nothing at or below the right pointer, and symmetrically when it
  is too large. Both subscripts are in range whenever the loop body runs.
\<close>

declare patrick_loop.simps [simp del]

lemma getitem_int:
  "0 \<le> i \<Longrightarrow> i < int (length xs) \<Longrightarrow> getitem xs i = Inr (xs ! nat i)"
  by (simp add: getitem_def)

lemma sorted_snd_mono:
  assumes "sorted (map snd s)" and "p \<le> q" and "q < length s"
  shows "snd (s ! p) \<le> snd (s ! q)"
  using sorted_nth_mono [OF assms(1), of p q] assms(2,3) by simp

lemma patrick_loop_post:
  assumes "sorted (map snd s)" and "0 \<le> left" and "right < int (length s)"
    and "\<forall>p q. p < q \<and> q < length s \<and> snd (s ! p) + snd (s ! q) = t
           \<longrightarrow> left \<le> int p \<and> int q \<le> right"
  shows "(patrick_loop s t left right = Inr [] \<and>
           (\<forall>p q. p < q \<and> q < length s \<longrightarrow> snd (s ! p) + snd (s ! q) \<noteq> t)) \<or>
         (\<exists>p q. patrick_loop s t left right = Inr (sort [fst (s ! p), fst (s ! q)]) \<and>
            p < q \<and> q < length s \<and> snd (s ! p) + snd (s ! q) = t)"
  using assms(2-)
proof (induction "nat (right - left)" arbitrary: left right rule: less_induct)
  case less
  show ?case
  proof (cases "left < right")
    case False
    have res: "patrick_loop s t left right = Inr []"
      using False by (subst patrick_loop.simps) simp
    have "\<forall>p q. p < q \<and> q < length s \<longrightarrow> snd (s ! p) + snd (s ! q) \<noteq> t"
    proof (intro allI impI notI)
      fix p q assume pq: "p < q \<and> q < length s" and eq: "snd (s ! p) + snd (s ! q) = t"
      with less.prems(3) have "left \<le> int p \<and> int q \<le> right" by blast
      with pq False show False by linarith
    qed
    with res show ?thesis by simp
  next
    case True
    define p0 where "p0 = nat left"
    define q0 where "q0 = nat right"
    have p0: "int p0 = left" using less.prems(1) by (simp add: p0_def)
    have q0: "int q0 = right" using less.prems(1) True by (simp add: q0_def)
    have pq0: "p0 < q0" "q0 < length s" using True less.prems(2) p0 q0 by linarith+
    have gl: "getitem s left = Inr (s ! p0)"
      using less.prems(1,2) True by (simp add: getitem_int p0_def)
    have gr: "getitem s right = Inr (s ! q0)"
      using less.prems(1,2) True by (simp add: getitem_int q0_def)
    let ?sum = "snd (s ! p0) + snd (s ! q0)"
    consider (eq) "?sum = t" | (lt) "?sum < t" | (gt) "t < ?sum" by linarith
    then show ?thesis
    proof cases
      case eq
      then have "patrick_loop s t left right = Inr (sort [fst (s ! p0), fst (s ! q0)])"
        using True gl gr by (subst patrick_loop.simps) (simp add: Let_def)
      with eq pq0 show ?thesis by blast
    next
      case lt
      have res: "patrick_loop s t left right = patrick_loop s t (left + 1) right"
        using True gl gr lt by (subst patrick_loop.simps) (simp add: Let_def)
      have inv: "\<forall>p q. p < q \<and> q < length s \<and> snd (s ! p) + snd (s ! q) = t
           \<longrightarrow> left + 1 \<le> int p \<and> int q \<le> right"
      proof (intro allI impI)
        fix p q assume h: "p < q \<and> q < length s \<and> snd (s ! p) + snd (s ! q) = t"
        with less.prems(3) have b: "left \<le> int p" "int q \<le> right" by blast+
        have "p \<noteq> p0"
        proof
          assume "p = p0"
          from b(2) q0 have "q \<le> q0" by linarith
          then have "snd (s ! q) \<le> snd (s ! q0)"
            using sorted_snd_mono [OF assms(1)] pq0(2) by blast
          with h \<open>p = p0\<close> lt show False by simp
        qed
        with b p0 show "left + 1 \<le> int p \<and> int q \<le> right" by linarith
      qed
      have m: "nat (right - (left + 1)) < nat (right - left)" using True by linarith
      have "0 \<le> left + 1" using less.prems(1) by simp
      from less.hyps [OF m this less.prems(2) inv] show ?thesis unfolding res .
    next
      case gt
      have res: "patrick_loop s t left right = patrick_loop s t left (right - 1)"
        using True gl gr gt by (subst patrick_loop.simps) (simp add: Let_def)
      have inv: "\<forall>p q. p < q \<and> q < length s \<and> snd (s ! p) + snd (s ! q) = t
           \<longrightarrow> left \<le> int p \<and> int q \<le> right - 1"
      proof (intro allI impI)
        fix p q assume h: "p < q \<and> q < length s \<and> snd (s ! p) + snd (s ! q) = t"
        with less.prems(3) have b: "left \<le> int p" "int q \<le> right" by blast+
        have "q \<noteq> q0"
        proof
          assume "q = q0"
          from b(1) p0 have "p0 \<le> p" by linarith
          moreover from h have "p < length s" by simp
          ultimately have "snd (s ! p0) \<le> snd (s ! p)"
            using sorted_snd_mono [OF assms(1)] by blast
          with h \<open>q = q0\<close> gt show False by simp
        qed
        with b q0 show "left \<le> int p \<and> int q \<le> right - 1" by linarith
      qed
      have m: "nat (right - 1 - left) < nat (right - left)" using True by linarith
      have "right - 1 < int (length s)" using less.prems(2) by simp
      from less.hyps [OF m less.prems(1) this inv] show ?thesis unfolding res .
    qed
  qed
qed

lemma sorted_nums_length: "length (sort_key snd (enumerate 0 nums)) = length nums"
  by simp

lemma sorted_nums_sorted: "sorted (map snd (sort_key snd (enumerate 0 nums)))"
  by (rule sorted_sort_key)

lemma sorted_nums_distinct: "distinct (map fst (sort_key snd (enumerate 0 nums)))"
proof -
  have "mset (map fst (sort_key snd (enumerate 0 nums))) = mset (map fst (enumerate 0 nums))"
    by (simp only: mset_map mset_sort)
  moreover have "distinct (map fst (enumerate 0 nums))" by simp
  ultimately show ?thesis using mset_eq_imp_distinct_iff by blast
qed

lemma sorted_nums_nth:
  assumes "p < length nums"
  shows "fst (sort_key snd (enumerate 0 nums) ! p) < length nums \<and>
         snd (sort_key snd (enumerate 0 nums) ! p)
           = nums ! fst (sort_key snd (enumerate 0 nums) ! p)"
proof -
  let ?s = "sort_key snd (enumerate 0 nums)"
  have "p < length ?s" using assms by simp
  then have "?s ! p \<in> set ?s" by (rule nth_mem)
  then have "?s ! p \<in> set (enumerate 0 nums)" by simp
  then show ?thesis by (auto simp: in_set_enumerate_eq)
qed

lemma sorted_nums_position:
  assumes "a < length nums"
  shows "\<exists>p < length nums. sort_key snd (enumerate 0 nums) ! p = (a, nums ! a)"
proof -
  let ?s = "sort_key snd (enumerate 0 nums)"
  have "(a, nums ! a) \<in> set (enumerate 0 nums)"
    using assms by (simp add: in_set_enumerate_eq)
  then have "(a, nums ! a) \<in> set ?s" by simp
  then obtain p where "p < length ?s" "?s ! p = (a, nums ! a)"
    by (meson in_set_conv_nth)
  then show ?thesis by auto
qed

lemma patrick_two_sum_post:
  "(patrick_two_sum nums t = Inr [] \<and>
      (\<forall>a b. a < b \<and> b < length nums \<longrightarrow> nums ! a + nums ! b \<noteq> t)) \<or>
   (\<exists>i j. patrick_two_sum nums t = Inr [i, j] \<and>
      i < j \<and> j < length nums \<and> nums ! i + nums ! j = t)"
proof -
  let ?s = "sort_key snd (enumerate 0 nums)"
  have len: "length ?s = length nums" by simp
  have def: "patrick_two_sum nums t = patrick_loop ?s t 0 (int (length nums) - 1)"
    by (simp only: patrick_two_sum_def Let_def)
  have inv: "\<forall>p q. p < q \<and> q < length ?s \<and> snd (?s ! p) + snd (?s ! q) = t
           \<longrightarrow> 0 \<le> int p \<and> int q \<le> int (length nums) - 1"
    by auto
  have r: "int (length nums) - 1 < int (length ?s)" by simp
  from patrick_loop_post [OF sorted_nums_sorted _ r inv] 
  have post: "(patrick_loop ?s t 0 (int (length nums) - 1) = Inr [] \<and>
           (\<forall>p q. p < q \<and> q < length ?s \<longrightarrow> snd (?s ! p) + snd (?s ! q) \<noteq> t)) \<or>
         (\<exists>p q. patrick_loop ?s t 0 (int (length nums) - 1)
              = Inr (sort [fst (?s ! p), fst (?s ! q)]) \<and>
            p < q \<and> q < length ?s \<and> snd (?s ! p) + snd (?s ! q) = t)"
    by simp
  then show ?thesis
  proof
    assume h: "patrick_loop ?s t 0 (int (length nums) - 1) = Inr [] \<and>
           (\<forall>p q. p < q \<and> q < length ?s \<longrightarrow> snd (?s ! p) + snd (?s ! q) \<noteq> t)"
    have "\<forall>a b. a < b \<and> b < length nums \<longrightarrow> nums ! a + nums ! b \<noteq> t"
    proof (intro allI impI notI)
      fix a b assume ab: "a < b \<and> b < length nums" and eq: "nums ! a + nums ! b = t"
      from ab have "a < length nums" by simp
      then obtain p where p: "p < length nums" "?s ! p = (a, nums ! a)"
        using sorted_nums_position by blast
      from ab obtain q where q: "q < length nums" "?s ! q = (b, nums ! b)"
        using sorted_nums_position by blast
      from p(2) q(2) ab have "p \<noteq> q" by auto
      then consider "p < q" | "q < p" by linarith
      then show False
      proof cases
        case 1
        with q(1) h have "snd (?s ! p) + snd (?s ! q) \<noteq> t" by simp
        with p(2) q(2) eq show False by simp
      next
        case 2
        with p(1) h have "snd (?s ! q) + snd (?s ! p) \<noteq> t" by simp
        with p(2) q(2) eq show False by simp
      qed
    qed
    with h def show ?thesis by simp
  next
    assume "\<exists>p q. patrick_loop ?s t 0 (int (length nums) - 1)
              = Inr (sort [fst (?s ! p), fst (?s ! q)]) \<and>
            p < q \<and> q < length ?s \<and> snd (?s ! p) + snd (?s ! q) = t"
    then obtain p q where h: "patrick_loop ?s t 0 (int (length nums) - 1)
              = Inr (sort [fst (?s ! p), fst (?s ! q)])"
      "p < q" "q < length nums" "snd (?s ! p) + snd (?s ! q) = t" by auto
    let ?i = "fst (?s ! p)" and ?j = "fst (?s ! q)"
    from h(2,3) have pl: "p < length nums" by simp
    have i: "?i < length nums" "snd (?s ! p) = nums ! ?i"
      using sorted_nums_nth [OF pl] by simp_all
    have j: "?j < length nums" "snd (?s ! q) = nums ! ?j"
      using sorted_nums_nth [OF h(3)] by simp_all
    have "map fst ?s ! p \<noteq> map fst ?s ! q"
      using sorted_nums_distinct [of nums] h(2,3) pl
      by (simp add: nth_eq_iff_index_eq del: nth_map)
    then have ne: "?i \<noteq> ?j" using pl h(3) by simp
    have sum: "nums ! ?i + nums ! ?j = t" using h(4) i(2) j(2) by simp
    show ?thesis
    proof (cases "?i < ?j")
      case True
      then have "sort [?i, ?j] = [?i, ?j]" by simp
      with h(1) def True j(1) sum show ?thesis by auto
    next
      case False
      with ne have lt: "?j < ?i" by simp
      then have "sort [?i, ?j] = [?j, ?i]" by simp
      moreover have "nums ! ?j + nums ! ?i = t" using sum by simp
      ultimately show ?thesis using h(1) def lt i(1) by auto
    qed
  qed
qed

section \<open>Results in terms of valid pairs\<close>

lemma valid_pair_commute: "valid_pair nums t i j \<Longrightarrow> valid_pair nums t j i"
  by (auto simp: valid_pair_def)

lemma valid_pair_ascending:
  "a < b \<Longrightarrow> valid_pair nums t a b \<longleftrightarrow> b < length nums \<and> nums ! a + nums ! b = t"
  by (auto simp: valid_pair_def)

lemma no_valid_pair_iff:
  "(\<forall>a b. a < b \<and> b < length nums \<longrightarrow> nums ! a + nums ! b \<noteq> t)
     \<longleftrightarrow> \<not> (\<exists>i j. valid_pair nums t i j)"
proof
  assume h: "\<forall>a b. a < b \<and> b < length nums \<longrightarrow> nums ! a + nums ! b \<noteq> t"
  show "\<not> (\<exists>i j. valid_pair nums t i j)"
  proof
    assume "\<exists>i j. valid_pair nums t i j"
    then obtain i j where v: "valid_pair nums t i j" by blast
    then have "i \<noteq> j" by (simp add: valid_pair_def)
    then consider "i < j" | "j < i" by linarith
    then show False
    proof cases
      case 1
      with v h have "nums ! i + nums ! j \<noteq> t" unfolding valid_pair_def by blast
      with v show False by (simp add: valid_pair_def)
    next
      case 2
      with v h have "nums ! j + nums ! i \<noteq> t" unfolding valid_pair_def by blast
      with v show False by (simp add: valid_pair_def)
    qed
  qed
next
  assume n: "\<not> (\<exists>i j. valid_pair nums t i j)"
  show "\<forall>a b. a < b \<and> b < length nums \<longrightarrow> nums ! a + nums ! b \<noteq> t"
  proof (intro allI impI notI)
    fix a b assume "a < b \<and> b < length nums" and "nums ! a + nums ! b = t"
    then have "valid_pair nums t a b" by (simp add: valid_pair_def)
    with n show False by blast
  qed
qed

text \<open>Each implementation returns the empty list when there is no valid pair, and an
  ascending valid pair otherwise.\<close>

lemma david_two_sum_cases:
  "(david_two_sum nums t = Inr [] \<and> \<not> (\<exists>i j. valid_pair nums t i j)) \<or>
   (\<exists>i j. david_two_sum nums t = Inr [i, j] \<and> i < j \<and> valid_pair nums t i j)"
  using david_two_sum_post [of nums t] unfolding no_valid_pair_iff
  by (auto simp: valid_pair_def)

lemma joseantonio_two_sum_cases:
  "(joseantonio_two_sum nums t = Inr [] \<and> \<not> (\<exists>i j. valid_pair nums t i j)) \<or>
   (\<exists>i j. joseantonio_two_sum nums t = Inr [i, j] \<and> i < j \<and> valid_pair nums t i j)"
  using david_two_sum_cases [of nums t] by (simp add: joseantonio_eq_david)

lemma jp_two_sum_cases:
  "(jp_two_sum nums t = Inr [] \<and> \<not> (\<exists>i j. valid_pair nums t i j)) \<or>
   (\<exists>i j. jp_two_sum nums t = Inr [i, j] \<and> i < j \<and> valid_pair nums t i j)"
  using jp_two_sum_post [of nums t] unfolding no_valid_pair_iff
  by (auto simp: valid_pair_def)

lemma patrick_two_sum_cases:
  "(patrick_two_sum nums t = Inr [] \<and> \<not> (\<exists>i j. valid_pair nums t i j)) \<or>
   (\<exists>i j. patrick_two_sum nums t = Inr [i, j] \<and> i < j \<and> valid_pair nums t i j)"
  using patrick_two_sum_post [of nums t] unfolding no_valid_pair_iff
  by (auto simp: valid_pair_def)

lemma cases_sound:
  assumes "(f = Inr [] \<and> \<not> (\<exists>i j. valid_pair nums t i j)) \<or>
           (\<exists>i j. f = Inr [i, j] \<and> i < j \<and> valid_pair nums t i j)"
    and "f = Inr r" and "r \<noteq> []"
  shows "\<exists>i j. r = [i, j] \<and> i < j \<and> valid_pair nums t i j"
  using assms by auto

lemma cases_complete:
  assumes "(f = Inr [] \<and> \<not> (\<exists>i j. valid_pair nums t i j)) \<or>
           (\<exists>i j. f = Inr [i, j] \<and> i < j \<and> valid_pair nums t i j)"
  shows "f = Inr [] \<longleftrightarrow> \<not> (\<exists>i j. valid_pair nums t i j)"
  using assms by auto

lemma cases_unique:
  assumes "(f = Inr [] \<and> \<not> (\<exists>i j. valid_pair nums t i j)) \<or>
           (\<exists>i j. f = Inr [i, j] \<and> i < j \<and> valid_pair nums t i j)"
    and "valid_pair nums t i j" and "i < j"
    and "\<forall>a b. valid_pair nums t a b \<longrightarrow> {a, b} = {i, j}"
  shows "\<exists>r. f = Inr r \<and> sort r = [i, j]"
proof -
  from assms(1,2) obtain a b where ab: "f = Inr [a, b]" "a < b" "valid_pair nums t a b"
    by blast
  with assms(4) have "{a, b} = {i, j}" by blast
  with ab(2) assms(3) have "a = i \<and> b = j" by (auto simp: doubleton_eq_iff)
  with ab(1) assms(3) show ?thesis by simp
qed

text \<open>The only valid pair of \<open>[3, 2, 4]\<close> for target \<open>6\<close>.\<close>

lemma valid_pair_324: "valid_pair [3, 2, 4] 6 a b \<longrightarrow> {a, b} = {1, 2}"
  by (auto simp: valid_pair_def less_Suc_eq numeral_3_eq_3 nth_Cons')

text \<open>
  The dictionary variants stop at the first index that completes a pair, and pair it with
  the last earlier index holding the complement.
\<close>

lemma david_two_sum_earliest:
  assumes "valid_pair nums t a b"
  shows "\<exists>i j. david_two_sum nums t = Inr [i, j] \<and> i < j \<and> valid_pair nums t i j \<and>
           (\<forall>a b. a < b \<and> valid_pair nums t a b \<longrightarrow> j \<le> b) \<and>
           (\<forall>a. a < j \<and> valid_pair nums t a j \<longrightarrow> a \<le> i)"
proof -
  from assms have ex: "\<exists>i j. valid_pair nums t i j" by blast
  with david_two_sum_post [of nums t] no_valid_pair_iff [of nums t]
  obtain i j where h: "david_two_sum nums t = Inr [i, j]" "i < j" "j < length nums"
    "nums ! i + nums ! j = t"
    "\<forall>a b. a < b \<and> b < j \<longrightarrow> nums ! a + nums ! b \<noteq> t"
    "\<forall>a. i < a \<and> a < j \<longrightarrow> nums ! a + nums ! j \<noteq> t" by blast
  have v: "valid_pair nums t i j" using h(2,3,4) by (simp add: valid_pair_def)
  have m1: "\<forall>a b. a < b \<and> valid_pair nums t a b \<longrightarrow> j \<le> b"
  proof (intro allI impI)
    fix a b assume ab: "a < b \<and> valid_pair nums t a b"
    show "j \<le> b"
    proof (rule ccontr)
      assume "\<not> j \<le> b"
      with ab have "a < b \<and> b < j" by simp
      with h(5) have "nums ! a + nums ! b \<noteq> t" by blast
      with ab show False by (simp add: valid_pair_def)
    qed
  qed
  have m2: "\<forall>a. a < j \<and> valid_pair nums t a j \<longrightarrow> a \<le> i"
  proof (intro allI impI)
    fix a assume aj: "a < j \<and> valid_pair nums t a j"
    show "a \<le> i"
    proof (rule ccontr)
      assume "\<not> a \<le> i"
      with aj have "i < a \<and> a < j" by simp
      with h(6) have "nums ! a + nums ! j \<noteq> t" by blast
      with aj show False by (simp add: valid_pair_def)
    qed
  qed
  from h(1,2) v m1 m2 show ?thesis by blast
qed

text \<open>A sequence of fewer than two elements has no valid pair.\<close>

lemma cases_short:
  assumes "(f = Inr [] \<and> \<not> (\<exists>i j. valid_pair nums t i j)) \<or>
           (\<exists>i j. f = Inr [i, j] \<and> i < j \<and> valid_pair nums t i j)"
    and "length nums \<le> 1"
  shows "f = Inr []"
  using assms by (auto simp: valid_pair_def)

section \<open>Properties\<close>

text \<open>
  C8. The three demonstration calls, for each of the four implementations:
  \<open>two_sum([2,7,11,15], 9)\<close> is \<open>[0,1]\<close>, \<open>two_sum([3,2,4], 6)\<close> is \<open>[1,2]\<close> and
  \<open>two_sum([3,3], 6)\<close> is \<open>[0,1]\<close>.
\<close>

theorem two_sum_scenarios:
  "david_two_sum [2, 7, 11, 15] 9 = Inr [0, 1] \<and>
   david_two_sum [3, 2, 4] 6 = Inr [1, 2] \<and>
   david_two_sum [3, 3] 6 = Inr [0, 1] \<and>
   joseantonio_two_sum [2, 7, 11, 15] 9 = Inr [0, 1] \<and>
   joseantonio_two_sum [3, 2, 4] 6 = Inr [1, 2] \<and>
   joseantonio_two_sum [3, 3] 6 = Inr [0, 1] \<and>
   jp_two_sum [2, 7, 11, 15] 9 = Inr [0, 1] \<and>
   jp_two_sum [3, 2, 4] 6 = Inr [1, 2] \<and>
   jp_two_sum [3, 3] 6 = Inr [0, 1] \<and>
   patrick_two_sum [2, 7, 11, 15] 9 = Inr [0, 1] \<and>
   patrick_two_sum [3, 2, 4] 6 = Inr [1, 2] \<and>
   patrick_two_sum [3, 3] 6 = Inr [0, 1]"
  by code_simp

text \<open>
  C9. The two dictionary variants are extensionally equal: on every sequence and
  target, \<open>two_sum\<close> of \<open>david.py\<close> and \<open>two_sum\<close> of \<open>joseantonio.py\<close> return
  the same result.
\<close>

theorem david_joseantonio_equal:
  "david_two_sum nums target = joseantonio_two_sum nums target"
  by (simp add: joseantonio_eq_david)

text \<open>
  C1. Soundness of all four variants: on every sequence and target, a non-empty result
  is a pair \<open>[i, j]\<close> of distinct indices, both in range of the sequence, whose values
  sum to the target.
\<close>

theorem two_sum_sound:
  "(david_two_sum nums target = Inr r \<and> r \<noteq> []
      \<longrightarrow> (\<exists>i j. r = [i, j] \<and> valid_pair nums target i j)) \<and>
   (joseantonio_two_sum nums target = Inr r \<and> r \<noteq> []
      \<longrightarrow> (\<exists>i j. r = [i, j] \<and> valid_pair nums target i j)) \<and>
   (jp_two_sum nums target = Inr r \<and> r \<noteq> []
      \<longrightarrow> (\<exists>i j. r = [i, j] \<and> valid_pair nums target i j)) \<and>
   (patrick_two_sum nums target = Inr r \<and> r \<noteq> []
      \<longrightarrow> (\<exists>i j. r = [i, j] \<and> valid_pair nums target i j))"
  using cases_sound [OF david_two_sum_cases, of nums target r]
    cases_sound [OF joseantonio_two_sum_cases, of nums target r]
    cases_sound [OF jp_two_sum_cases, of nums target r]
    cases_sound [OF patrick_two_sum_cases, of nums target r]
  by blast

text \<open>
  The four variants on \<open>[3, 2, 4]\<close> with target \<open>6\<close>.
\<close>

theorem two_sum_sound_witness:
  "david_two_sum [3, 2, 4] 6 = Inr [1, 2] \<and>
   joseantonio_two_sum [3, 2, 4] 6 = Inr [1, 2] \<and>
   jp_two_sum [3, 2, 4] 6 = Inr [1, 2] \<and>
   patrick_two_sum [3, 2, 4] 6 = Inr [1, 2] \<and>
   [1, 2 :: nat] \<noteq> [] \<and>
   (\<exists>i j. [1, 2] = [i, j] \<and> valid_pair [3, 2, 4] 6 i j)"
proof -
  have d: "david_two_sum [3, 2, 4] 6 = Inr [1, 2]" by code_simp
  have j: "joseantonio_two_sum [3, 2, 4] 6 = Inr [1, 2]" by code_simp
  have b: "jp_two_sum [3, 2, 4] 6 = Inr [1, 2]" by code_simp
  have p: "patrick_two_sum [3, 2, 4] 6 = Inr [1, 2]" by code_simp
  show ?thesis
    using two_sum_sound [of "[3, 2, 4]" 6 "[1, 2]"] d j b p by simp
qed

text \<open>
  C2. Completeness and silent not-found for all four variants: on every sequence and
  target, the function returns the empty list if and only if no pair of distinct indices
  has values summing to the target. In particular, when there is no such pair the
  result is the returned empty list and not an error.
\<close>

theorem two_sum_complete:
  "(david_two_sum nums target = Inr [] \<longleftrightarrow> \<not> (\<exists>i j. valid_pair nums target i j)) \<and>
   (joseantonio_two_sum nums target = Inr [] \<longleftrightarrow> \<not> (\<exists>i j. valid_pair nums target i j)) \<and>
   (jp_two_sum nums target = Inr [] \<longleftrightarrow> \<not> (\<exists>i j. valid_pair nums target i j)) \<and>
   (patrick_two_sum nums target = Inr [] \<longleftrightarrow> \<not> (\<exists>i j. valid_pair nums target i j))"
  using cases_complete [OF david_two_sum_cases, of nums target]
    cases_complete [OF joseantonio_two_sum_cases, of nums target]
    cases_complete [OF jp_two_sum_cases, of nums target]
    cases_complete [OF patrick_two_sum_cases, of nums target]
  by blast

text \<open>
  Both directions at concrete inputs: \<open>[1, 2, 3]\<close> with target \<open>100\<close> has no valid pair,
  \<open>[3, 3]\<close> with target \<open>6\<close> has one.
\<close>

theorem two_sum_complete_witness:
  "david_two_sum [1, 2, 3] 100 = Inr [] \<and>
   joseantonio_two_sum [1, 2, 3] 100 = Inr [] \<and>
   jp_two_sum [1, 2, 3] 100 = Inr [] \<and>
   patrick_two_sum [1, 2, 3] 100 = Inr [] \<and>
   \<not> (\<exists>i j. valid_pair [1, 2, 3] 100 i j) \<and>
   valid_pair [3, 3] 6 0 1 \<and>
   david_two_sum [3, 3] 6 \<noteq> Inr [] \<and>
   joseantonio_two_sum [3, 3] 6 \<noteq> Inr [] \<and>
   jp_two_sum [3, 3] 6 \<noteq> Inr [] \<and>
   patrick_two_sum [3, 3] 6 \<noteq> Inr []"
proof -
  have d: "david_two_sum [1, 2, 3] 100 = Inr []" by code_simp
  have j: "joseantonio_two_sum [1, 2, 3] 100 = Inr []" by code_simp
  have b: "jp_two_sum [1, 2, 3] 100 = Inr []" by code_simp
  have p: "patrick_two_sum [1, 2, 3] 100 = Inr []" by code_simp
  have v: "valid_pair [3, 3] 6 0 1" by (simp add: valid_pair_def)
  then have e: "\<exists>i j. valid_pair [3, 3] 6 i j" by blast
  show ?thesis
    using two_sum_complete [of "[1, 2, 3]" 100] two_sum_complete [of "[3, 3]" 6] d j b p v e
    by simp
qed

text \<open>
  C3. Cross-variant equivalence: when exactly one pair of distinct indices sums to the
  target, say \<open>{i, j}\<close> with \<open>i < j\<close>, each of the four implementations returns a
  pair that is \<open>[i, j]\<close> once sorted ascending.
\<close>

theorem two_sum_unique_agree:
  assumes "valid_pair nums target i j" and "i < j"
    and "\<forall>a b. valid_pair nums target a b \<longrightarrow> {a, b} = {i, j}"
  shows "(\<exists>r. david_two_sum nums target = Inr r \<and> sort r = [i, j]) \<and>
         (\<exists>r. joseantonio_two_sum nums target = Inr r \<and> sort r = [i, j]) \<and>
         (\<exists>r. jp_two_sum nums target = Inr r \<and> sort r = [i, j]) \<and>
         (\<exists>r. patrick_two_sum nums target = Inr r \<and> sort r = [i, j])"
  using cases_unique [OF david_two_sum_cases assms]
    cases_unique [OF joseantonio_two_sum_cases assms]
    cases_unique [OF jp_two_sum_cases assms]
    cases_unique [OF patrick_two_sum_cases assms]
  by blast

text \<open>
  On \<open>[3, 2, 4]\<close> with target \<open>6\<close> the only valid pair is \<open>{1, 2}\<close>.
\<close>

theorem two_sum_unique_agree_witness:
  "valid_pair [3, 2, 4] 6 1 2 \<and> (1::nat) < 2 \<and>
   \<not> (\<exists>a b. valid_pair [3, 2, 4] 6 a b \<and> {a, b} \<noteq> {1, 2}) \<and>
   (\<exists>r. david_two_sum [3, 2, 4] 6 = Inr r \<and> sort r = [1, 2]) \<and>
   (\<exists>r. joseantonio_two_sum [3, 2, 4] 6 = Inr r \<and> sort r = [1, 2]) \<and>
   (\<exists>r. jp_two_sum [3, 2, 4] 6 = Inr r \<and> sort r = [1, 2]) \<and>
   (\<exists>r. patrick_two_sum [3, 2, 4] 6 = Inr r \<and> sort r = [1, 2])"
proof -
  have v: "valid_pair [3, 2, 4] 6 1 2" by (simp add: valid_pair_def)
  have l: "(1::nat) < 2" by simp
  have u: "\<forall>a b. valid_pair [3, 2, 4] 6 a b \<longrightarrow> {a, b} = {1, 2}"
    using valid_pair_324 by blast
  from two_sum_unique_agree [OF v l u] v l u show ?thesis by blast
qed

text \<open>
  C4 as stated fails. On \<open>[1, 2, 4, 5]\<close> with target \<open>6\<close> the dictionary variants
  return \<open>[1, 2]\<close> although \<open>(0, 3)\<close> is a valid pair and lexicographically earlier:
  the scan stops at the first index that completes a pair, whatever its partner. On
  \<open>[1, 1, 2]\<close> with target \<open>3\<close> they return \<open>[1, 2]\<close> although \<open>(0, 2)\<close> is valid:
  storing a value again overwrites its earlier index.
\<close>

theorem hash_map_not_lexicographic:
  "david_two_sum [1, 2, 4, 5] 6 = Inr [1, 2] \<and>
   joseantonio_two_sum [1, 2, 4, 5] 6 = Inr [1, 2] \<and>
   valid_pair [1, 2, 4, 5] 6 0 3 \<and> (0::nat) < 3 \<and> (0::nat) < 1 \<and>
   david_two_sum [1, 1, 2] 3 = Inr [1, 2] \<and>
   joseantonio_two_sum [1, 1, 2] 3 = Inr [1, 2] \<and>
   valid_pair [1, 1, 2] 3 0 2 \<and> (0::nat) < 2 \<and> (0::nat) < 1"
proof -
  have "david_two_sum [1, 2, 4, 5] 6 = Inr [1, 2]" by code_simp
  moreover have "joseantonio_two_sum [1, 2, 4, 5] 6 = Inr [1, 2]" by code_simp
  moreover have "david_two_sum [1, 1, 2] 3 = Inr [1, 2]" by code_simp
  moreover have "joseantonio_two_sum [1, 1, 2] 3 = Inr [1, 2]" by code_simp
  ultimately show ?thesis by (simp add: valid_pair_def)
qed

text \<open>
  C4, amended. Dictionary variants: whenever at least one valid pair exists, the
  returned pair \<open>[i, j]\<close> is a valid pair with \<open>i < j\<close> whose second index \<open>j\<close> is the
  smallest second index of any valid pair \<open>(a, b)\<close> with \<open>a < b\<close>, and whose first index
  \<open>i\<close> is the largest index below \<open>j\<close> that forms a valid pair with \<open>j\<close>.
\<close>

theorem hash_map_earliest_second_index:
  assumes "valid_pair nums target a b"
  shows "\<exists>i j. david_two_sum nums target = Inr [i, j] \<and>
           joseantonio_two_sum nums target = Inr [i, j] \<and>
           i < j \<and> valid_pair nums target i j \<and>
           (\<forall>a b. a < b \<and> valid_pair nums target a b \<longrightarrow> j \<le> b) \<and>
           (\<forall>a. a < j \<and> valid_pair nums target a j \<longrightarrow> a \<le> i)"
  using david_two_sum_earliest [OF assms] by (simp add: joseantonio_eq_david)

text \<open>
  On \<open>[1, 2, 4, 5]\<close> with target \<open>6\<close>, where \<open>(0, 3)\<close> is a valid pair.
\<close>

theorem hash_map_earliest_second_index_witness:
  "valid_pair [1, 2, 4, 5] 6 0 3 \<and>
   (\<exists>i j. david_two_sum [1, 2, 4, 5] 6 = Inr [i, j] \<and>
           joseantonio_two_sum [1, 2, 4, 5] 6 = Inr [i, j] \<and>
           i < j \<and> valid_pair [1, 2, 4, 5] 6 i j \<and>
           (\<forall>a b. a < b \<and> valid_pair [1, 2, 4, 5] 6 a b \<longrightarrow> j \<le> b) \<and>
           (\<forall>a. a < j \<and> valid_pair [1, 2, 4, 5] 6 a j \<longrightarrow> a \<le> i))"
proof -
  have v: "valid_pair [1, 2, 4, 5] 6 0 3" by (simp add: valid_pair_def)
  from hash_map_earliest_second_index [OF v] v show ?thesis by blast
qed

text \<open>
  C5. Brute-force variant: whenever at least one valid pair exists, the returned pair
  \<open>[i, j]\<close> is the first valid pair with \<open>i < j\<close> in row-major order: every valid pair
  \<open>(a, b)\<close> with \<open>a < b\<close> has \<open>i < a\<close>, or \<open>i = a\<close> and \<open>j \<le> b\<close>.
\<close>

theorem jp_first_row_major:
  assumes "valid_pair nums target a b"
  shows "\<exists>i j. jp_two_sum nums target = Inr [i, j] \<and> i < j \<and> valid_pair nums target i j \<and>
           (\<forall>a b. a < b \<and> valid_pair nums target a b \<longrightarrow> i < a \<or> (i = a \<and> j \<le> b))"
proof -
  from assms have ex: "\<exists>i j. valid_pair nums target i j" by blast
  with jp_two_sum_post [of nums target] no_valid_pair_iff [of nums target]
  obtain i j where h: "jp_two_sum nums target = Inr [i, j]" "i < j" "j < length nums"
    "nums ! i + nums ! j = target"
    "\<forall>a b. a < i \<and> a < b \<and> b < length nums \<longrightarrow> nums ! a + nums ! b \<noteq> target"
    "\<forall>b. i < b \<and> b < j \<longrightarrow> nums ! i + nums ! b \<noteq> target" by blast
  have v: "valid_pair nums target i j" using h(2,3,4) by (simp add: valid_pair_def)
  have m: "\<forall>a b. a < b \<and> valid_pair nums target a b \<longrightarrow> i < a \<or> (i = a \<and> j \<le> b)"
  proof (intro allI impI)
    fix a b assume ab: "a < b \<and> valid_pair nums target a b"
    then have b: "b < length nums" and s: "nums ! a + nums ! b = target"
      by (simp_all add: valid_pair_def)
    have "\<not> a < i"
    proof
      assume "a < i"
      with ab b have "a < i \<and> a < b \<and> b < length nums" by simp
      with h(5) s show False by blast
    qed
    moreover have "i = a \<longrightarrow> j \<le> b"
    proof
      assume ia: "i = a"
      show "j \<le> b"
      proof (rule ccontr)
        assume "\<not> j \<le> b"
        with ab ia have "i < b \<and> b < j" by simp
        with h(6) s ia show False by blast
      qed
    qed
    ultimately show "i < a \<or> (i = a \<and> j \<le> b)" by linarith
  qed
  from h(1,2) v m show ?thesis by blast
qed

text \<open>
  On \<open>[1, 2, 4, 5]\<close> with target \<open>6\<close>, where \<open>(1, 2)\<close> is a valid pair.
\<close>

theorem jp_first_row_major_witness:
  "valid_pair [1, 2, 4, 5] 6 1 2 \<and>
   (\<exists>i j. jp_two_sum [1, 2, 4, 5] 6 = Inr [i, j] \<and> i < j \<and> valid_pair [1, 2, 4, 5] 6 i j \<and>
           (\<forall>a b. a < b \<and> valid_pair [1, 2, 4, 5] 6 a b \<longrightarrow> i < a \<or> (i = a \<and> j \<le> b)))"
proof -
  have v: "valid_pair [1, 2, 4, 5] 6 1 2" by (simp add: valid_pair_def)
  from jp_first_row_major [OF v] v show ?thesis by blast
qed

text \<open>
  C6. Sort-and-two-pointer variant: on every sequence and target, a non-empty result is
  a pair \<open>[i, j]\<close> of original indices with \<open>i < j\<close>.
\<close>

theorem patrick_result_ascending:
  "patrick_two_sum nums target = Inr r \<and> r \<noteq> [] \<longrightarrow> (\<exists>i j. r = [i, j] \<and> i < j)"
  using cases_sound [OF patrick_two_sum_cases, of nums target r] by blast

text \<open>
  On \<open>[4, 1, 2]\<close> with target \<open>6\<close> the left pointer finds index \<open>2\<close> and the right
  pointer index \<open>0\<close>; the result is \<open>[0, 2]\<close>.
\<close>

theorem patrick_result_ascending_witness:
  "patrick_two_sum [4, 1, 2] 6 = Inr [0, 2] \<and> [0, 2 :: nat] \<noteq> [] \<and>
   (\<exists>i j. [0, 2 :: nat] = [i, j] \<and> i < j)"
proof -
  have p: "patrick_two_sum [4, 1, 2] 6 = Inr [0, 2]" by code_simp
  show ?thesis using patrick_result_ascending [of "[4, 1, 2]" 6 "[0, 2]"] p by simp
qed

text \<open>
  C7. Dictionary variants: on every sequence and target, a non-empty result
  \<open>[earlier_index, current_index]\<close> has its first index strictly below its second.
\<close>

theorem hash_map_result_ascending:
  "(david_two_sum nums target = Inr r \<and> r \<noteq> [] \<longrightarrow> (\<exists>i j. r = [i, j] \<and> i < j)) \<and>
   (joseantonio_two_sum nums target = Inr r \<and> r \<noteq> [] \<longrightarrow> (\<exists>i j. r = [i, j] \<and> i < j))"
  using cases_sound [OF david_two_sum_cases, of nums target r]
    cases_sound [OF joseantonio_two_sum_cases, of nums target r]
  by blast

text \<open>
  The dictionary variants on \<open>[2, 7, 11, 15]\<close> with target \<open>9\<close>.
\<close>

theorem hash_map_result_ascending_witness:
  "david_two_sum [2, 7, 11, 15] 9 = Inr [0, 1] \<and>
   joseantonio_two_sum [2, 7, 11, 15] 9 = Inr [0, 1] \<and> [0, 1 :: nat] \<noteq> [] \<and>
   (\<exists>i j. [0, 1 :: nat] = [i, j] \<and> i < j)"
proof -
  have d: "david_two_sum [2, 7, 11, 15] 9 = Inr [0, 1]" by code_simp
  have j: "joseantonio_two_sum [2, 7, 11, 15] 9 = Inr [0, 1]" by code_simp
  show ?thesis
    using hash_map_result_ascending [of "[2, 7, 11, 15]" 9 "[0, 1]"] d j by simp
qed

text \<open>
  C10. On a sequence of length 0 or 1 and any target, each of the four variants returns
  the empty list; no subscript is out of range, so no error value arises.
\<close>

theorem short_input_empty:
  assumes "length nums \<le> 1"
  shows "david_two_sum nums target = Inr [] \<and>
         joseantonio_two_sum nums target = Inr [] \<and>
         jp_two_sum nums target = Inr [] \<and>
         patrick_two_sum nums target = Inr []"
  using cases_short [OF david_two_sum_cases assms]
    cases_short [OF joseantonio_two_sum_cases assms]
    cases_short [OF jp_two_sum_cases assms]
    cases_short [OF patrick_two_sum_cases assms]
  by blast

text \<open>
  The empty sequence and the one-element sequence \<open>[5]\<close>, with target \<open>10\<close>.
\<close>

theorem short_input_empty_witness:
  "length ([] :: int list) \<le> 1 \<and> length [5 :: int] \<le> 1 \<and>
   david_two_sum [] 10 = Inr [] \<and> joseantonio_two_sum [] 10 = Inr [] \<and>
   jp_two_sum [] 10 = Inr [] \<and> patrick_two_sum [] 10 = Inr [] \<and>
   david_two_sum [5] 10 = Inr [] \<and> joseantonio_two_sum [5] 10 = Inr [] \<and>
   jp_two_sum [5] 10 = Inr [] \<and> patrick_two_sum [5] 10 = Inr []"
proof -
  have e: "length ([] :: int list) \<le> 1" by simp
  have s: "length [5 :: int] \<le> 1" by simp
  from short_input_empty [OF e, of 10] short_input_empty [OF s, of 10] e s
  show ?thesis by blast
qed

end
